theory Spec2Isabelle
  imports Main "HOL-Library.FSet"
begin

section \<open>Library interface\<close>

text \<open>
  The crawler calls three library functions whose code is not part of the repository:
  \<^verbatim>\<open>urllib.parse.urlparse\<close>, \<^verbatim>\<open>urllib.parse.urljoin\<close> and BeautifulSoup's
  \<^verbatim>\<open>find_all('a', href=True)\<close>. They are parameters of the model. Of the result of
  \<^verbatim>\<open>urlparse\<close> the code reads the three attributes below; \<^verbatim>\<open>urlparse\<close> and
  \<^verbatim>\<open>urljoin\<close> raise \<^verbatim>\<open>ValueError\<close> on some inputs, which is the value \<open>None\<close>.
  \<open>anchor_hrefs\<close> is the list of the \<^verbatim>\<open>href\<close> attributes of the anchors of a document,
  in document order.
\<close>

record parsed_url =
  scheme :: string
  netloc :: string
  path :: string

record library =
  urlparse :: "string \<Rightarrow> parsed_url option"
  urljoin :: "string \<Rightarrow> string \<Rightarrow> string option"
  anchor_hrefs :: "string \<Rightarrow> string list"

datatype exn = ValueError

subsection \<open>String operations of Python used by the code\<close>

text \<open>
  \<^verbatim>\<open>str.lower\<close> on the ASCII letters (every entry of the skip list is ASCII),
  \<^verbatim>\<open>str.endswith\<close> and the substring test \<^verbatim>\<open>sub in s\<close>.
\<close>

definition lower_char :: "char \<Rightarrow> char" where
  "lower_char c =
     (case map_of (zip ''ABCDEFGHIJKLMNOPQRSTUVWXYZ'' ''abcdefghijklmnopqrstuvwxyz'') c of
        None \<Rightarrow> c
      | Some l \<Rightarrow> l)"

definition lower :: "string \<Rightarrow> string" where
  "lower s = map lower_char s"

definition endswith :: "string \<Rightarrow> string \<Rightarrow> bool" where
  "endswith s ext = (length ext \<le> length s \<and> drop (length s - length ext) s = ext)"

fun contains :: "string \<Rightarrow> string \<Rightarrow> bool" where
  "contains [] sub = (sub = [])"
| "contains (c # cs) sub = (take (length sub) (c # cs) = sub \<or> contains cs sub)"

section \<open>URL classifier\<close>

definition SKIP_EXTENSIONS :: "string set" where
  "SKIP_EXTENSIONS =
     {''.jpg'', ''.jpeg'', ''.png'', ''.gif'', ''.bmp'', ''.svg'', ''.webp'',
      ''.css'', ''.js'', ''.ico'', ''.pdf'', ''.doc'', ''.docx'', ''.xls'', ''.xlsx'',
      ''.zip'', ''.rar'', ''.tar'', ''.gz'', ''.mp3'', ''.mp4'', ''.avi'', ''.mov'',
      ''.flv'', ''.wmv'', ''.woff'', ''.woff2'', ''.ttf'', ''.eot''}"

text \<open>
  \<^verbatim>\<open>is_valid_url\<close>: the whole body is inside \<^verbatim>\<open>try\<close> with a bare \<^verbatim>\<open>except\<close> that
  returns \<^verbatim>\<open>False\<close>; the only call that can raise is \<^verbatim>\<open>urlparse\<close>.
\<close>

definition is_valid_url :: "library \<Rightarrow> string \<Rightarrow> string \<Rightarrow> bool" where
  "is_valid_url lib u base_domain =
     (case urlparse lib u of
        None \<Rightarrow> False
      | Some parsed \<Rightarrow>
          (if \<exists>ext \<in> SKIP_EXTENSIONS. endswith (lower (path parsed)) ext then False
           else netloc parsed = base_domain \<and> scheme parsed \<noteq> []))"

section \<open>Fetch and extract\<close>

text \<open>
  What \<^verbatim>\<open>session.get\<close> does for a URL is the network's answer: it raises (timeout,
  connection error, ...), or it gives a response with a status and possibly a
  \<^verbatim>\<open>Content-Type\<close> header. \<open>body\<close> is what \<^verbatim>\<open>response.text()\<close> returns, \<open>None\<close> when
  reading or decoding the body raises.
\<close>

record response =
  status :: int
  content_type :: "string option"
  body :: "string option"

datatype get_outcome = Raised | Responded response

definition fetch_url :: "(string \<Rightarrow> get_outcome) \<Rightarrow> string \<Rightarrow> string option \<times> int" where
  "fetch_url get u =
     (case get u of
        Raised \<Rightarrow> (None, 0)
      | Responded r \<Rightarrow>
          (if status r = 200 \<and>
              contains (case content_type r of None \<Rightarrow> [] | Some ct \<Rightarrow> ct) ''text/html''
           then (case body r of None \<Rightarrow> (None, 0) | Some content \<Rightarrow> (Some content, status r))
           else (None, status r)))"

fun extract_loop :: "library \<Rightarrow> string \<Rightarrow> string \<Rightarrow> string list \<Rightarrow> string list \<Rightarrow> exn + string list" where
  "extract_loop lib base_url base_domain [] links = Inr links"
| "extract_loop lib base_url base_domain (href # hrefs) links =
     (case urljoin lib base_url href of
        None \<Rightarrow> Inl ValueError
      | Some absolute_url \<Rightarrow>
          extract_loop lib base_url base_domain hrefs
            (if is_valid_url lib absolute_url base_domain then links @ [absolute_url] else links))"

definition extract_links :: "library \<Rightarrow> string \<Rightarrow> string \<Rightarrow> exn + string list" where
  "extract_links lib html_content base_url =
     (if html_content = [] then Inr []
      else (case urlparse lib base_url of
              None \<Rightarrow> Inl ValueError
            | Some parsed \<Rightarrow>
                extract_loop lib base_url (netloc parsed) (anchor_hrefs lib html_content) []))"

section \<open>Task state\<close>

record url_record =
  r_url :: string
  r_status :: "int option"
  r_new :: bool

record task_result =
  urls :: "url_record list"
  complete :: bool

record crawl_state =
  discovered_urls :: "string fset"
  crawled_urls :: "string fset"
  queue :: "string list"
  results :: task_result

text \<open>
  The network of one crawl: the answer to the GET of each URL, and how long the answer
  takes. The coroutines of a batch resume in the order in which their answers arrive.
\<close>

record network =
  respond :: "string \<Rightarrow> get_outcome"
  latency :: "string \<Rightarrow> nat"

definition append_record :: "crawl_state \<Rightarrow> url_record \<Rightarrow> crawl_state" where
  "append_record st r = st\<lparr>results := (results st)\<lparr>urls := urls (results st) @ [r]\<rparr>\<rparr>"

section \<open>Crawling one URL\<close>

text \<open>The body of the loop over the extracted links in \<^verbatim>\<open>crawl_url\<close>.\<close>

definition crawl_url_link :: "crawl_state \<Rightarrow> string \<Rightarrow> crawl_state" where
  "crawl_url_link st link =
     (if link |\<notin>| discovered_urls st \<and> link |\<notin>| crawled_urls st
      then append_record
             (st\<lparr>discovered_urls := finsert link (discovered_urls st),
                 queue := queue st @ [link]\<rparr>)
             \<lparr>r_url = link, r_status = None, r_new = True\<rparr>
      else st)"

text \<open>
  \<^verbatim>\<open>crawl_url\<close> up to its first suspension (the \<^verbatim>\<open>await\<close> of the fetch): the early return
  and the insertion into \<^verbatim>\<open>crawled_urls\<close>. The flag says whether the coroutine goes on
  to fetch.
\<close>

definition crawl_url_begin :: "crawl_state \<Rightarrow> string \<Rightarrow> crawl_state \<times> bool" where
  "crawl_url_begin st u =
     (if u |\<in>| crawled_urls st then (st, False)
      else (st\<lparr>crawled_urls := finsert u (crawled_urls st)\<rparr>, True))"

text \<open>
  \<^verbatim>\<open>crawl_url\<close> from the answer of the fetch on. Nothing here suspends: \<^verbatim>\<open>extract_links\<close>
  has no \<^verbatim>\<open>await\<close> inside and \<^verbatim>\<open>put\<close> on an unbounded queue returns at once. The
  parameter \<open>base_domain\<close> is passed by \<^verbatim>\<open>crawl_site\<close> and never read. An exception of
  \<^verbatim>\<open>extract_links\<close> leaves the function after the record was appended.
\<close>

definition crawl_url_finish ::
  "library \<Rightarrow> network \<Rightarrow> string \<Rightarrow> crawl_state \<Rightarrow> string \<Rightarrow> exn option \<times> crawl_state" where
  "crawl_url_finish lib net base_domain st u =
     (case fetch_url (respond net) u of
        (content, st_code) \<Rightarrow>
          (let st1 = append_record st \<lparr>r_url = u, r_status = Some st_code, r_new = True\<rparr> in
           case content of
             None \<Rightarrow> (None, st1)
           | Some html \<Rightarrow>
               (if html = [] then (None, st1)
                else (case extract_links lib html u of
                        Inl e \<Rightarrow> (Some e, st1)
                      | Inr links \<Rightarrow> (None, foldl crawl_url_link st1 links)))))"

section \<open>Scheduler\<close>

text \<open>The loop that takes up to \<open>n\<close> URLs from the queue and keeps those not yet crawled.\<close>

fun dequeue_loop :: "nat \<Rightarrow> string fset \<Rightarrow> string list \<Rightarrow> string list \<Rightarrow> string list \<times> string list" where
  "dequeue_loop 0 crawled q tasks = (q, tasks)"
| "dequeue_loop (Suc n) crawled [] tasks = ([], tasks)"
| "dequeue_loop (Suc n) crawled (current_url # q) tasks =
     dequeue_loop n crawled q
       (if current_url |\<notin>| crawled then tasks @ [current_url] else tasks)"

text \<open>
  \<^verbatim>\<open>asyncio.gather\<close>: the coroutines start in the order of the list and each runs to
  its fetch; then they resume as the answers arrive, which is the order of the
  latencies (equal latencies in the order of the list). The first exception ends the
  \<^verbatim>\<open>await\<close>; what the other coroutines of the batch do afterwards is not part of the model.
\<close>

fun start_all :: "crawl_state \<Rightarrow> string list \<Rightarrow> crawl_state \<times> string list" where
  "start_all st [] = (st, [])"
| "start_all st (u # us) =
     (case crawl_url_begin st u of
        (st1, fetching) \<Rightarrow>
          (case start_all st1 us of
             (st2, waiting) \<Rightarrow> (st2, if fetching then u # waiting else waiting)))"

fun finish_all ::
  "library \<Rightarrow> network \<Rightarrow> string \<Rightarrow> crawl_state \<Rightarrow> string list \<Rightarrow> exn option \<times> crawl_state" where
  "finish_all lib net base_domain st [] = (None, st)"
| "finish_all lib net base_domain st (u # us) =
     (case crawl_url_finish lib net base_domain st u of
        (Some e, st1) \<Rightarrow> (Some e, st1)
      | (None, st1) \<Rightarrow> finish_all lib net base_domain st1 us)"

definition gather ::
  "library \<Rightarrow> network \<Rightarrow> string \<Rightarrow> crawl_state \<Rightarrow> string list \<Rightarrow> exn option \<times> crawl_state" where
  "gather lib net base_domain st tasks =
     (case start_all st tasks of
        (st1, waiting) \<Rightarrow> finish_all lib net base_domain st1 (sort_key (latency net) waiting))"

text \<open>One pass of the body of the \<^verbatim>\<open>while\<close> loop of \<^verbatim>\<open>crawl_site\<close>.\<close>

definition crawl_round ::
  "library \<Rightarrow> network \<Rightarrow> string \<Rightarrow> crawl_state \<Rightarrow> exn option \<times> crawl_state" where
  "crawl_round lib net base_domain st =
     (case dequeue_loop (min 5 (length (queue st))) (crawled_urls st) (queue st) [] of
        (q, tasks) \<Rightarrow>
          (if tasks \<noteq> [] then gather lib net base_domain (st\<lparr>queue := q\<rparr>) tasks
           else (None, st\<lparr>queue := q\<rparr>)))"

text \<open>
  The \<^verbatim>\<open>while\<close> loop of \<^verbatim>\<open>crawl_site\<close>. An exception of a round leaves the loop
  (and \<^verbatim>\<open>crawl_site\<close>) with the state as it is then.
\<close>

function crawl_loop ::
  "library \<Rightarrow> network \<Rightarrow> string \<Rightarrow> int \<Rightarrow> crawl_state \<Rightarrow> exn option \<times> crawl_state" where
  "crawl_loop lib net base_domain max_urls st =
     (if queue st \<noteq> [] \<and> int (fcard (crawled_urls st)) < max_urls
      then (case crawl_round lib net base_domain st of
              (Some e, st1) \<Rightarrow> (Some e, st1)
            | (None, st1) \<Rightarrow> crawl_loop lib net base_domain max_urls st1)
      else (None, st))"
  by pat_completeness auto

subsection \<open>The loop terminates\<close>

text \<open>
  A round with a non-empty queue either starts a fetch, which adds a URL to
  \<^verbatim>\<open>crawled_urls\<close>, or only drops URLs from the queue.
\<close>

lemma crawled_append_record [simp]: "crawled_urls (append_record st r) = crawled_urls st"
  by (simp add: append_record_def)

lemma crawled_crawl_url_link [simp]: "crawled_urls (crawl_url_link st link) = crawled_urls st"
  by (simp add: crawl_url_link_def)

lemma crawled_foldl_link [simp]: "crawled_urls (foldl crawl_url_link st links) = crawled_urls st"
  by (induction links arbitrary: st) simp_all

lemma crawled_crawl_url_finish:
  "crawl_url_finish lib net d st u = (e, st') \<Longrightarrow> crawled_urls st' = crawled_urls st"
  by (auto simp: crawl_url_finish_def Let_def split: prod.splits option.splits if_splits sum.splits)

lemma crawled_finish_all:
  "finish_all lib net d st us = (e, st') \<Longrightarrow> crawled_urls st' = crawled_urls st"
proof (induction us arbitrary: st)
  case Nil
  then show ?case by simp
next
  case (Cons u us)
  then show ?case
    by (auto split: prod.splits option.splits dest: crawled_crawl_url_finish)
qed

lemma queue_start_all: "start_all st us = (st', w) \<Longrightarrow> queue st' = queue st"
  by (induction us arbitrary: st st' w)
     (auto simp: crawl_url_begin_def split: prod.splits if_splits)

lemma crawled_start_all_mono:
  "start_all st us = (st', w) \<Longrightarrow> crawled_urls st |\<subseteq>| crawled_urls st'"
  by (induction us arbitrary: st st' w)
     (fastforce simp: crawl_url_begin_def split: prod.splits if_splits)+

lemma crawled_start_all_mem:
  "start_all st us = (st', w) \<Longrightarrow> u \<in> set us \<Longrightarrow> u |\<in>| crawled_urls st'"
proof (induction us arbitrary: st st' w)
  case Nil
  then show ?case by simp
next
  case (Cons a us)
  obtain st1 f where b: "crawl_url_begin st a = (st1, f)" by (cases "crawl_url_begin st a")
  obtain st2 w2 where s: "start_all st1 us = (st2, w2)" by (cases "start_all st1 us")
  from Cons.prems b s have st': "st' = st2" by simp
  have a1: "a |\<in>| crawled_urls st1"
    using b by (auto simp: crawl_url_begin_def split: if_splits)
  show ?case
  proof (cases "u = a")
    case True
    with a1 crawled_start_all_mono [OF s] st' show ?thesis by auto
  next
    case False
    with Cons.prems have "u \<in> set us" by simp
    with Cons.IH [OF s] st' show ?thesis by simp
  qed
qed

lemma dequeue_loop_tasks:
  "dequeue_loop n crawled q tasks = (q', tasks') \<Longrightarrow>
     set tasks' \<subseteq> set tasks \<union> {u \<in> set q. u |\<notin>| crawled}"
  by (induction n crawled q tasks rule: dequeue_loop.induct) (auto split: if_splits)

lemma dequeue_loop_length:
  "dequeue_loop n crawled q tasks = (q', tasks') \<Longrightarrow> length q' = length q - n"
  by (induction n crawled q tasks rule: dequeue_loop.induct) auto

lemma crawl_round_progress:
  assumes "queue st \<noteq> []" and "crawl_round lib net d st = (e, st')"
  shows "fcard (crawled_urls st) < fcard (crawled_urls st') \<or>
         (crawled_urls st' = crawled_urls st \<and> length (queue st') < length (queue st))"
proof -
  obtain q tasks where dq:
    "dequeue_loop (min 5 (length (queue st))) (crawled_urls st) (queue st) [] = (q, tasks)"
    by (cases "dequeue_loop (min 5 (length (queue st))) (crawled_urls st) (queue st) []")
  from dequeue_loop_length [OF dq] assms(1) have len: "length q < length (queue st)"
    by (cases "queue st") auto
  show ?thesis
  proof (cases "tasks = []")
    case True
    with assms(2) dq have "st' = st\<lparr>queue := q\<rparr>" by (simp add: crawl_round_def)
    with len show ?thesis by simp
  next
    case False
    then obtain u where u: "u \<in> set tasks" by (cases tasks) auto
    with dequeue_loop_tasks [OF dq] have notin: "u |\<notin>| crawled_urls st" by auto
    obtain st1 w where sa: "start_all (st\<lparr>queue := q\<rparr>) tasks = (st1, w)"
      by (cases "start_all (st\<lparr>queue := q\<rparr>) tasks")
    from False assms(2) dq sa
    have fin: "finish_all lib net d st1 (sort_key (latency net) w) = (e, st')"
      by (simp add: crawl_round_def gather_def)
    have c': "crawled_urls st' = crawled_urls st1" by (rule crawled_finish_all [OF fin])
    have sub: "crawled_urls st |\<subseteq>| crawled_urls st1"
      using crawled_start_all_mono [OF sa] by simp
    have "u |\<in>| crawled_urls st1" by (rule crawled_start_all_mem [OF sa u])
    with notin sub have "crawled_urls st |\<subset>| crawled_urls st1" by auto
    then have "fcard (crawled_urls st) < fcard (crawled_urls st1)"
      by (rule pfsubset_fcard_mono)
    with c' show ?thesis by simp
  qed
qed

termination crawl_loop
proof (relation "measures [\<lambda>(lib, net, d, m, st). nat (m - int (fcard (crawled_urls st))),
                           \<lambda>(lib, net, d, m, st). length (queue st)]", goal_cases)
  case 1
  then show ?case by simp
next
  case (2 lib net d m st x y)
  from 2 have r: "crawl_round lib net d st = (None, y)" and q: "queue st \<noteq> []"
    and m: "int (fcard (crawled_urls st)) < m" by simp_all
  from crawl_round_progress [OF q r] m show ?case by auto
qed

declare crawl_loop.simps [simp del]

text \<open>
  \<^verbatim>\<open>crawl_site\<close>. \<open>entry\<close> is the object \<^verbatim>\<open>crawl_results[task_id]\<close>, which only this task
  writes. The flag \<open>respect_robots\<close> is a parameter as in the source. When \<^verbatim>\<open>urlparse\<close>
  raises on the root URL nothing has been created yet.
\<close>

definition initial_state :: "string \<Rightarrow> task_result \<Rightarrow> crawl_state" where
  "initial_state u entry =
     \<lparr>discovered_urls = {|u|}, crawled_urls = {||}, queue = [u], results = entry\<rparr>"

definition crawl_site ::
  "library \<Rightarrow> network \<Rightarrow> string \<Rightarrow> bool \<Rightarrow> int \<Rightarrow> task_result \<Rightarrow> exn option \<times> crawl_state" where
  "crawl_site lib net u respect_robots max_urls entry =
     (case urlparse lib u of
        None \<Rightarrow>
          (Some ValueError,
           \<lparr>discovered_urls = {||}, crawled_urls = {||}, queue = [], results = entry\<rparr>)
      | Some parsed \<Rightarrow>
          (case crawl_loop lib net (netloc parsed) max_urls (initial_state u entry) of
             (Some e, st) \<Rightarrow> (Some e, st)
           | (None, st) \<Rightarrow> (None, st\<lparr>results := (results st)\<lparr>complete := True\<rparr>\<rparr>)))"

section \<open>HTTP interface\<close>

type_synonym registry = "string \<rightharpoonup> task_result"

record crawl_request =
  req_url :: string
  respect_robots_txt :: bool
  req_max_urls :: int

text \<open>
  \<^verbatim>\<open>start_crawl\<close> creates the entry of the task and hands \<^verbatim>\<open>crawl_site\<close> to the background
  tasks with the three fields of the request. The result is the registry once that
  background task has ended; the task identifier, made from a hash and the clock, is a
  parameter.
\<close>

definition start_crawl :: "library \<Rightarrow> network \<Rightarrow> registry \<Rightarrow> string \<Rightarrow> crawl_request \<Rightarrow> registry" where
  "start_crawl lib net reg task_id request =
     (case crawl_site lib net (req_url request) (respect_robots_txt request)
             (req_max_urls request) \<lparr>urls = [], complete = False\<rparr> of
        (e, st) \<Rightarrow> reg(task_id \<mapsto> results st))"

datatype http_exception = HTTPException int string

record snapshot =
  snap_urls :: "url_record list"
  snap_complete :: bool
  snap_count :: nat

text \<open>
  The two read handlers take the registry and give it back as they leave it, with
  their answer: the exception raised, or the value returned.
\<close>

definition get_results :: "registry \<Rightarrow> string \<Rightarrow> (http_exception + snapshot) \<times> registry" where
  "get_results reg task_id =
     (case reg task_id of
        None \<Rightarrow> (Inl (HTTPException 404 ''Task not found''), reg)
      | Some entry \<Rightarrow>
          (Inr \<lparr>snap_urls = urls entry, snap_complete = complete entry,
                snap_count = length (urls entry)\<rparr>, reg))"

text \<open>On success \<^verbatim>\<open>stream_results\<close> returns the generator, which has not run yet.\<close>

datatype event_source = EventSourceResponse string

definition stream_results :: "registry \<Rightarrow> string \<Rightarrow> (http_exception + event_source) \<times> registry" where
  "stream_results reg task_id =
     (case reg task_id of
        None \<Rightarrow> (Inl (HTTPException 404 ''Task not found''), reg)
      | Some entry \<Rightarrow> (Inr (EventSourceResponse task_id), reg))"

text \<open>
  One pass of the \<^verbatim>\<open>for\<close> loop of \<^verbatim>\<open>event_generator\<close> over the list of records: the
  records it yields, in order, and \<^verbatim>\<open>sent_urls\<close> afterwards.
\<close>

fun scan :: "url_record list \<Rightarrow> string fset \<Rightarrow> string fset \<times> url_record list" where
  "scan [] sent_urls = (sent_urls, [])"
| "scan (url_data # rest) sent_urls =
     (if r_url url_data |\<notin>| sent_urls
      then (case scan rest (finsert (r_url url_data) sent_urls) of
              (sent, yielded) \<Rightarrow> (sent, url_data # yielded))
      else scan rest sent_urls)"

text \<open>
  The \<^verbatim>\<open>while True\<close> loop of \<^verbatim>\<open>event_generator\<close>, with fuel: the number of passes it may
  make. \<open>obs k\<close> is the entry of the task as pass \<open>k\<close> finds it (the list only grows, and
  a pass reads the list up to its end at the moment the pass ends, where the test for
  completion follows without a suspension). The result is the records yielded and
  whether the generator has ended.
\<close>

fun event_generator ::
  "nat \<Rightarrow> (nat \<Rightarrow> task_result) \<Rightarrow> nat \<Rightarrow> string fset \<Rightarrow> url_record list \<times> bool" where
  "event_generator 0 obs k sent_urls = ([], False)"
| "event_generator (Suc fuel) obs k sent_urls =
     (case scan (urls (obs k)) sent_urls of
        (sent, yielded) \<Rightarrow>
          (if complete (obs k) \<and> fcard sent = length (urls (obs k)) then (yielded, True)
           else (case event_generator fuel obs (Suc k) sent of
                   (later, ended) \<Rightarrow> (yielded @ later, ended))))"

section \<open>Invariants of a crawl\<close>

definition frontier_inv :: "crawl_state \<Rightarrow> bool" where
  "frontier_inv st =
     (crawled_urls st |\<subseteq>| discovered_urls st \<and>
      set (queue st) \<subseteq> fset (discovered_urls st))"

definition log_inv :: "crawl_state \<Rightarrow> bool" where
  "log_inv st = (r_url ` set (urls (results st)) \<subseteq> fset (discovered_urls st))"

definition scope_inv :: "library \<Rightarrow> string \<Rightarrow> string \<Rightarrow> crawl_state \<Rightarrow> bool" where
  "scope_inv lib root base_domain st =
     (fset (discovered_urls st) \<subseteq> {v. v = root \<or> is_valid_url lib v base_domain})"

section \<open>A small site\<close>

text \<open>
  The scenario of the specification: the page at \<^verbatim>\<open>http://a.test/\<close> links to
  \<^verbatim>\<open>http://a.test/b\<close>, \<^verbatim>\<open>http://other.test/x\<close> and \<^verbatim>\<open>http://a.test/c.png\<close>. A second page
  links to two pages of the site. The rows of \<open>site_urlparse\<close> are what \<^verbatim>\<open>urlparse\<close>
  returns for these strings; \<^verbatim>\<open>urljoin\<close> returns an absolute \<^verbatim>\<open>http\<close> reference unchanged.
\<close>

definition page_a :: string where
  "page_a = ''<a href=http://a.test/b><a href=http://other.test/x><a href=http://a.test/c.png>''"

definition page_two :: string where
  "page_two = ''<a href=http://a.test/b><a href=http://a.test/c>''"

definition site_urlparse :: "string \<Rightarrow> parsed_url option" where
  "site_urlparse u =
     (if u = ''http://a.test/''
        then Some \<lparr>scheme = ''http'', netloc = ''a.test'', path = ''/''\<rparr>
      else if u = ''http://a.test/b''
        then Some \<lparr>scheme = ''http'', netloc = ''a.test'', path = ''/b''\<rparr>
      else if u = ''http://a.test/c''
        then Some \<lparr>scheme = ''http'', netloc = ''a.test'', path = ''/c''\<rparr>
      else if u = ''http://a.test/c.png''
        then Some \<lparr>scheme = ''http'', netloc = ''a.test'', path = ''/c.png''\<rparr>
      else if u = ''http://a.test/c.PNG''
        then Some \<lparr>scheme = ''http'', netloc = ''a.test'', path = ''/c.PNG''\<rparr>
      else if u = ''http://other.test/''
        then Some \<lparr>scheme = ''http'', netloc = ''other.test'', path = ''/''\<rparr>
      else if u = ''http://other.test/x''
        then Some \<lparr>scheme = ''http'', netloc = ''other.test'', path = ''/x''\<rparr>
      else None)"

definition site_lib :: library where
  "site_lib =
     \<lparr>urlparse = site_urlparse,
      urljoin = (\<lambda>base href. Some href),
      anchor_hrefs = (\<lambda>html.
        if html = page_a
          then [''http://a.test/b'', ''http://other.test/x'', ''http://a.test/c.png'']
        else if html = page_two then [''http://a.test/b'', ''http://a.test/c'']
        else [])\<rparr>"

definition html_response :: "string \<Rightarrow> get_outcome" where
  "html_response html =
     Responded \<lparr>status = 200, content_type = Some ''text/html; charset=utf-8'',
                body = Some html\<rparr>"

definition not_found :: get_outcome where
  "not_found = Responded \<lparr>status = 404, content_type = None, body = None\<rparr>"

definition site_net :: "string \<Rightarrow> network" where
  "site_net root_page =
     \<lparr>respond = (\<lambda>u. if u = ''http://a.test/'' then html_response root_page else not_found),
      latency = (\<lambda>u. 0)\<rparr>"

definition down_net :: network where
  "down_net = \<lparr>respond = (\<lambda>u. Raised), latency = (\<lambda>u. 0)\<rparr>"

definition fresh_entry :: task_result where
  "fresh_entry = \<lparr>urls = [], complete = False\<rparr>"

text \<open>The entry of the task when the crawl of the scenario has ended.\<close>

definition two_phase_log :: task_result where
  "two_phase_log =
     \<lparr>urls = [\<lparr>r_url = ''http://a.test/'', r_status = Some 200, r_new = True\<rparr>,
              \<lparr>r_url = ''http://a.test/b'', r_status = None, r_new = True\<rparr>,
              \<lparr>r_url = ''http://a.test/b'', r_status = Some 404, r_new = True\<rparr>],
      complete = True\<rparr>"

section \<open>Evaluation of the small site\<close>

lemmas site_simps = site_lib_def site_urlparse_def site_net_def html_response_def not_found_def
  page_a_def page_two_def fresh_entry_def down_net_def

lemmas crawl_simps = crawl_site_def initial_state_def crawl_loop.simps crawl_round_def gather_def
  crawl_url_begin_def crawl_url_finish_def crawl_url_link_def append_record_def fetch_url_def
  extract_links_def is_valid_url_def SKIP_EXTENSIONS_def endswith_def lower_def lower_char_def
  fcard_fempty fcard_finsert_if

section \<open>The classifier\<close>

lemma lower_skip_extension: "ext \<in> SKIP_EXTENSIONS \<Longrightarrow> lower ext = ext"
  unfolding SKIP_EXTENSIONS_def lower_def lower_char_def by auto

lemma endswith_lower: "endswith s ext \<Longrightarrow> endswith (lower s) (lower ext)"
  unfolding endswith_def lower_def by (metis drop_map length_map)

text \<open>
  C7, as the code has it. \<^verbatim>\<open>is_valid_url\<close> is a function of the URL, the domain and the
  library's \<^verbatim>\<open>urlparse\<close> alone. It returns true exactly when \<^verbatim>\<open>urlparse\<close> succeeds, the
  lower-cased path ends with no entry of the skip list, the authority equals the domain
  as a string and the scheme is not empty. In particular a path that ends with an entry
  of the skip list as written is rejected. The extension test is made on the lower-cased
  path, so it ignores case.
\<close>

theorem is_valid_url_characterisation:
  "(is_valid_url lib u d \<longleftrightarrow>
      (\<exists>p. urlparse lib u = Some p \<and>
           \<not> (\<exists>ext \<in> SKIP_EXTENSIONS. endswith (lower (path p)) ext) \<and>
           netloc p = d \<and> scheme p \<noteq> [])) \<and>
   (\<forall>p ext. urlparse lib u = Some p \<and> ext \<in> SKIP_EXTENSIONS \<and> endswith (path p) ext \<longrightarrow>
      \<not> is_valid_url lib u d)"
proof -
  have "\<not> is_valid_url lib u d"
    if "urlparse lib u = Some p" "ext \<in> SKIP_EXTENSIONS" "endswith (path p) ext" for p ext
  proof -
    from that(2,3) have "endswith (lower (path p)) ext"
      using endswith_lower [of "path p" ext] lower_skip_extension [of ext] by simp
    with that(1,2) show ?thesis by (auto simp: is_valid_url_def)
  qed
  moreover have "is_valid_url lib u d \<longleftrightarrow>
      (\<exists>p. urlparse lib u = Some p \<and>
           \<not> (\<exists>ext \<in> SKIP_EXTENSIONS. endswith (lower (path p)) ext) \<and>
           netloc p = d \<and> scheme p \<noteq> [])"
    by (auto simp: is_valid_url_def split: option.splits)
  ultimately show ?thesis by blast
qed

theorem is_valid_url_characterisation_witness:
  "is_valid_url site_lib ''http://a.test/b'' ''a.test'' \<and>
   \<not> is_valid_url site_lib ''http://a.test/c.png'' ''a.test''"
proof -
  have p: "urlparse site_lib ''http://a.test/c.png'' =
     Some \<lparr>scheme = ''http'', netloc = ''a.test'', path = ''/c.png''\<rparr>"
    by (simp add: site_simps)
  have e: "''.png'' \<in> SKIP_EXTENSIONS" by (simp add: SKIP_EXTENSIONS_def)
  have s: "endswith (path \<lparr>scheme = ''http'', netloc = ''a.test'', path = ''/c.png''\<rparr>) ''.png''"
    by (simp add: endswith_def)
  from is_valid_url_characterisation [of site_lib "''http://a.test/c.png''" "''a.test''"] p e s
  have 1: "\<not> is_valid_url site_lib ''http://a.test/c.png'' ''a.test''" by blast
  have q: "urlparse site_lib ''http://a.test/b'' =
     Some \<lparr>scheme = ''http'', netloc = ''a.test'', path = ''/b''\<rparr>"
    by (simp add: site_simps)
  have n: "\<not> (\<exists>ext \<in> SKIP_EXTENSIONS. endswith (lower (path \<lparr>scheme = ''http'', netloc = ''a.test'', path = ''/b''\<rparr>)) ext)"
    by (simp add: SKIP_EXTENSIONS_def endswith_def lower_def lower_char_def)
  from is_valid_url_characterisation [of site_lib "''http://a.test/b''" "''a.test''"] q n
  have 2: "is_valid_url site_lib ''http://a.test/b'' ''a.test''" by simp
  from 1 2 show ?thesis by simp
qed

text \<open>
  The claim C7 read literally (true whenever the path does not end with an entry of the
  skip list, the scheme is there and the authority is the domain) fails for a path with
  an upper-case extension: \<^verbatim>\<open>/c.PNG\<close> ends with no entry of the list and is rejected.
\<close>

theorem is_valid_url_upper_case_counterexample:
  "urlparse site_lib ''http://a.test/c.PNG'' =
     Some \<lparr>scheme = ''http'', netloc = ''a.test'', path = ''/c.PNG''\<rparr> \<and>
   \<not> (\<exists>ext \<in> SKIP_EXTENSIONS. endswith ''/c.PNG'' ext) \<and>
   \<not> is_valid_url site_lib ''http://a.test/c.PNG'' ''a.test''"
  by (simp add: is_valid_url_def site_simps SKIP_EXTENSIONS_def endswith_def lower_def lower_char_def)

section \<open>Fetching\<close>

text \<open>
  C6: \<^verbatim>\<open>fetch_url\<close> always gives a pair. When the request raises the pair is
  \<open>(None, 0)\<close>. For a response with status 200 whose \<^verbatim>\<open>Content-Type\<close> contains
  \<^verbatim>\<open>text/html\<close> it is the body with 200 (and \<open>(None, 0)\<close> when reading the body raises);
  for every other response it is \<open>None\<close> with the status of the response. A pair with a
  body has status 200 and comes from such a response only.
\<close>

theorem fetch_url_result:
  "(get u = Raised \<longrightarrow> fetch_url get u = (None, 0)) \<and>
   (\<forall>r. get u = Responded r \<longrightarrow>
      (if status r = 200 \<and>
          contains (case content_type r of None \<Rightarrow> [] | Some ct \<Rightarrow> ct) ''text/html''
       then (case body r of
               None \<Rightarrow> fetch_url get u = (None, 0)
             | Some content \<Rightarrow> fetch_url get u = (Some content, 200))
       else fetch_url get u = (None, status r))) \<and>
   (\<forall>content code. fetch_url get u = (Some content, code) \<longrightarrow>
      code = 200 \<and>
      (\<exists>r. get u = Responded r \<and> status r = 200 \<and> body r = Some content \<and>
           contains (case content_type r of None \<Rightarrow> [] | Some ct \<Rightarrow> ct) ''text/html''))"
  by (cases "get u") (auto simp: fetch_url_def split: option.splits)

theorem fetch_url_result_witness:
  "fetch_url (respond down_net) ''http://a.test/'' = (None, 0) \<and>
   fetch_url (respond (site_net page_a)) ''http://a.test/'' = (Some page_a, 200) \<and>
   fetch_url (respond (site_net page_a)) ''http://a.test/b'' = (None, 404)"
proof -
  have 1: "respond down_net ''http://a.test/'' = Raised" by (simp add: down_net_def)
  have 2: "respond (site_net page_a) ''http://a.test/'' =
      Responded \<lparr>status = 200, content_type = Some ''text/html; charset=utf-8'', body = Some page_a\<rparr>"
    by (simp add: site_net_def html_response_def)
  have 3: "respond (site_net page_a) ''http://a.test/b'' =
      Responded \<lparr>status = 404, content_type = None, body = None\<rparr>"
    by (simp add: site_net_def not_found_def)
  from 1 fetch_url_result [of "respond down_net" "''http://a.test/''"]
  have a: "fetch_url (respond down_net) ''http://a.test/'' = (None, 0)" by blast
  from fetch_url_result [of "respond (site_net page_a)" "''http://a.test/''"]
  have "\<forall>r. respond (site_net page_a) ''http://a.test/'' = Responded r \<longrightarrow>
      (if status r = 200 \<and>
          contains (case content_type r of None \<Rightarrow> [] | Some ct \<Rightarrow> ct) ''text/html''
       then (case body r of
               None \<Rightarrow> fetch_url (respond (site_net page_a)) ''http://a.test/'' = (None, 0)
             | Some content \<Rightarrow> fetch_url (respond (site_net page_a)) ''http://a.test/'' = (Some content, 200))
       else fetch_url (respond (site_net page_a)) ''http://a.test/'' = (None, status r))" by blast
  with 2 have b: "fetch_url (respond (site_net page_a)) ''http://a.test/'' = (Some page_a, 200)"
    by simp
  from fetch_url_result [of "respond (site_net page_a)" "''http://a.test/b''"]
  have "\<forall>r. respond (site_net page_a) ''http://a.test/b'' = Responded r \<longrightarrow>
      (if status r = 200 \<and>
          contains (case content_type r of None \<Rightarrow> [] | Some ct \<Rightarrow> ct) ''text/html''
       then (case body r of
               None \<Rightarrow> fetch_url (respond (site_net page_a)) ''http://a.test/b'' = (None, 0)
             | Some content \<Rightarrow> fetch_url (respond (site_net page_a)) ''http://a.test/b'' = (Some content, 200))
       else fetch_url (respond (site_net page_a)) ''http://a.test/b'' = (None, status r))" by blast
  with 3 have c: "fetch_url (respond (site_net page_a)) ''http://a.test/b'' = (None, 404)"
    by simp
  from a b c show ?thesis by simp
qed

section \<open>The robots flag\<close>

text \<open>
  C9: the flag \<^verbatim>\<open>respect_robots_txt\<close> has no effect. With the same library, network,
  root URL and limit, \<^verbatim>\<open>crawl_site\<close> gives the same final state (discovered and crawled
  sets, queue, records, exception) for both values of the flag, and so does the registry
  after \<^verbatim>\<open>start_crawl\<close> for two requests that differ in the flag only.
\<close>

theorem respect_robots_no_effect:
  "crawl_site lib net u True m entry = crawl_site lib net u False m entry \<and>
   start_crawl lib net reg task_id (request\<lparr>respect_robots_txt := True\<rparr>) =
   start_crawl lib net reg task_id (request\<lparr>respect_robots_txt := False\<rparr>)"
  by (simp add: crawl_site_def start_crawl_def)

section \<open>Reading an unknown task\<close>

text \<open>
  C10: for a task identifier that is not in the registry \<^verbatim>\<open>get_results\<close> and
  \<^verbatim>\<open>stream_results\<close> raise the HTTP exception 404 and leave the registry as it was; for
  an identifier that is in the registry both return a value and leave the registry as it
  was.
\<close>

theorem unknown_task_not_found:
  "(reg task_id = None \<longrightarrow>
      get_results reg task_id = (Inl (HTTPException 404 ''Task not found''), reg) \<and>
      stream_results reg task_id = (Inl (HTTPException 404 ''Task not found''), reg)) \<and>
   (reg task_id \<noteq> None \<longrightarrow>
      (\<exists>s. get_results reg task_id = (Inr s, reg)) \<and>
      (\<exists>g. stream_results reg task_id = (Inr g, reg)))"
  by (auto simp: get_results_def stream_results_def)

theorem unknown_task_not_found_witness:
  "get_results (Map.empty(''t1'' \<mapsto> fresh_entry)) ''t2'' =
     (Inl (HTTPException 404 ''Task not found''), Map.empty(''t1'' \<mapsto> fresh_entry)) \<and>
   stream_results (Map.empty(''t1'' \<mapsto> fresh_entry)) ''t2'' =
     (Inl (HTTPException 404 ''Task not found''), Map.empty(''t1'' \<mapsto> fresh_entry)) \<and>
   (\<exists>s. get_results (Map.empty(''t1'' \<mapsto> fresh_entry)) ''t1'' =
     (Inr s, Map.empty(''t1'' \<mapsto> fresh_entry))) \<and>
   (\<exists>g. stream_results (Map.empty(''t1'' \<mapsto> fresh_entry)) ''t1'' =
     (Inr g, Map.empty(''t1'' \<mapsto> fresh_entry)))"
proof -
  have a: "(Map.empty(''t1'' \<mapsto> fresh_entry)) ''t2'' = None" by simp
  have b: "(Map.empty(''t1'' \<mapsto> fresh_entry)) ''t1'' \<noteq> None" by simp
  from a unknown_task_not_found [of "Map.empty(''t1'' \<mapsto> fresh_entry)" "''t2''"]
    b unknown_task_not_found [of "Map.empty(''t1'' \<mapsto> fresh_entry)" "''t1''"]
  show ?thesis by blast
qed

section \<open>The invariants hold throughout a crawl\<close>

lemma discovered_append_record [simp]:
  "discovered_urls (append_record st r) = discovered_urls st"
  by (simp add: append_record_def)

lemma queue_append_record [simp]: "queue (append_record st r) = queue st"
  by (simp add: append_record_def)

lemma urls_append_record [simp]:
  "urls (results (append_record st r)) = urls (results st) @ [r]"
  by (simp add: append_record_def)

lemma frontier_inv_append_record [simp]:
  "frontier_inv (append_record st r) = frontier_inv st"
  by (simp add: frontier_inv_def)

lemma scope_inv_append_record [simp]:
  "scope_inv lib root d (append_record st r) = scope_inv lib root d st"
  by (simp add: scope_inv_def)

lemma log_inv_append_record:
  "log_inv st \<Longrightarrow> r_url r |\<in>| discovered_urls st \<Longrightarrow> log_inv (append_record st r)"
  by (auto simp: log_inv_def)

lemma frontier_inv_link: "frontier_inv st \<Longrightarrow> frontier_inv (crawl_url_link st l)"
  by (auto simp: crawl_url_link_def frontier_inv_def)

lemma log_inv_link: "log_inv st \<Longrightarrow> log_inv (crawl_url_link st l)"
  by (auto simp: crawl_url_link_def log_inv_def append_record_def)

lemma scope_inv_link:
  "scope_inv lib root d st \<Longrightarrow> is_valid_url lib l d \<Longrightarrow>
     scope_inv lib root d (crawl_url_link st l)"
  by (auto simp: crawl_url_link_def scope_inv_def)

lemma discovered_link_mono: "discovered_urls st |\<subseteq>| discovered_urls (crawl_url_link st l)"
  by (auto simp: crawl_url_link_def)

lemma frontier_inv_links: "frontier_inv st \<Longrightarrow> frontier_inv (foldl crawl_url_link st ls)"
  by (induction ls arbitrary: st) (simp_all add: frontier_inv_link)

lemma log_inv_links: "log_inv st \<Longrightarrow> log_inv (foldl crawl_url_link st ls)"
  by (induction ls arbitrary: st) (simp_all add: log_inv_link)

lemma scope_inv_links:
  "scope_inv lib root d st \<Longrightarrow> \<forall>l \<in> set ls. is_valid_url lib l d \<Longrightarrow>
     scope_inv lib root d (foldl crawl_url_link st ls)"
  by (induction ls arbitrary: st) (simp_all add: scope_inv_link)

lemma discovered_links_mono:
  "discovered_urls st |\<subseteq>| discovered_urls (foldl crawl_url_link st ls)"
proof (induction ls arbitrary: st)
  case Nil
  show ?case by simp
next
  case (Cons l ls)
  have "discovered_urls st |\<subseteq>| discovered_urls (crawl_url_link st l)"
    by (rule discovered_link_mono)
  also have "\<dots> |\<subseteq>| discovered_urls (foldl crawl_url_link (crawl_url_link st l) ls)"
    by (rule Cons.IH)
  finally show ?case by simp
qed

lemma extract_loop_joined:
  "extract_loop lib base d hrefs acc = Inr links \<Longrightarrow>
     \<exists>joined. map (urljoin lib base) hrefs = map Some joined \<and>
              links = acc @ filter (\<lambda>v. is_valid_url lib v d) joined"
proof (induction hrefs arbitrary: acc)
  case Nil
  then show ?case by simp
next
  case (Cons h hrefs)
  from Cons.prems obtain v where v: "urljoin lib base h = Some v"
    by (cases "urljoin lib base h") auto
  with Cons.prems
  have "extract_loop lib base d hrefs (if is_valid_url lib v d then acc @ [v] else acc) = Inr links"
    by simp
  from Cons.IH [OF this] obtain joined where j: "map (urljoin lib base) hrefs = map Some joined"
    "links = (if is_valid_url lib v d then acc @ [v] else acc) @
       filter (\<lambda>v. is_valid_url lib v d) joined" by blast
  from v j have "map (urljoin lib base) (h # hrefs) = map Some (v # joined) \<and>
     links = acc @ filter (\<lambda>v. is_valid_url lib v d) (v # joined)" by simp
  then show ?case by blast
qed

lemma extract_links_valid:
  assumes "extract_links lib html base = Inr links" and "urlparse lib base = Some q"
  shows "\<forall>l \<in> set links. is_valid_url lib l (netloc q)"
proof (cases "html = []")
  case True
  with assms show ?thesis by (simp add: extract_links_def)
next
  case False
  with assms have "extract_loop lib base (netloc q) (anchor_hrefs lib html) [] = Inr links"
    by (simp add: extract_links_def)
  from extract_loop_joined [OF this] show ?thesis by auto
qed

lemma is_valid_url_netloc:
  "is_valid_url lib v d \<Longrightarrow> \<exists>q. urlparse lib v = Some q \<and> netloc q = d"
  by (auto simp: is_valid_url_def split: option.splits if_splits)

lemma scope_inv_netloc:
  assumes "scope_inv lib root d st" and "urlparse lib root = Some p" and "netloc p = d"
    and "v |\<in>| discovered_urls st"
  shows "\<exists>q. urlparse lib v = Some q \<and> netloc q = d"
proof -
  from assms(1,4) have "v = root \<or> is_valid_url lib v d" by (auto simp: scope_inv_def)
  then show ?thesis
  proof
    assume "v = root"
    with assms(2,3) show ?thesis by simp
  next
    assume "is_valid_url lib v d"
    then show ?thesis by (rule is_valid_url_netloc)
  qed
qed

lemma crawl_url_finish_inv:
  assumes fin: "crawl_url_finish lib net bd st u = (e, st')"
    and fr: "frontier_inv st" and sc: "scope_inv lib root d st"
    and root: "urlparse lib root = Some p" "netloc p = d"
    and u: "u |\<in>| crawled_urls st"
  shows "frontier_inv st' \<and> scope_inv lib root d st' \<and> (log_inv st \<longrightarrow> log_inv st') \<and>
         discovered_urls st |\<subseteq>| discovered_urls st'"
proof -
  obtain content code where f: "fetch_url (respond net) u = (content, code)"
    by (cases "fetch_url (respond net) u")
  let ?st1 = "append_record st \<lparr>r_url = u, r_status = Some code, r_new = True\<rparr>"
  from fr u have ud: "u |\<in>| discovered_urls st" by (auto simp: frontier_inv_def)
  have base: "frontier_inv ?st1 \<and> scope_inv lib root d ?st1 \<and> (log_inv st \<longrightarrow> log_inv ?st1) \<and>
         discovered_urls st |\<subseteq>| discovered_urls ?st1"
    using fr sc ud by (simp add: log_inv_append_record)
  from scope_inv_netloc [OF sc root ud] obtain q where q: "urlparse lib u = Some q" "netloc q = d"
    by blast
  show ?thesis
  proof (cases "\<exists>html links. content = Some html \<and> html \<noteq> [] \<and> extract_links lib html u = Inr links")
    case True
    then obtain html links where c: "content = Some html" "html \<noteq> []"
      and ex: "extract_links lib html u = Inr links" by blast
    from fin f c ex have st': "st' = foldl crawl_url_link ?st1 links"
      by (simp add: crawl_url_finish_def Let_def)
    from extract_links_valid [OF ex q(1)] q(2) have v: "\<forall>l \<in> set links. is_valid_url lib l d"
      by simp
    from base have "discovered_urls st |\<subseteq>| discovered_urls ?st1" by simp
    also have "\<dots> |\<subseteq>| discovered_urls (foldl crawl_url_link ?st1 links)"
      by (rule discovered_links_mono)
    finally have "discovered_urls st |\<subseteq>| discovered_urls (foldl crawl_url_link ?st1 links)" .
    with base v st' show ?thesis
      by (simp add: frontier_inv_links scope_inv_links log_inv_links)
  next
    case False
    with fin f have "st' = ?st1"
      by (auto simp: crawl_url_finish_def Let_def split: option.splits if_splits sum.splits)
    with base show ?thesis by simp
  qed
qed


lemma finish_all_inv:
  assumes "finish_all lib net bd st us = (e, st')"
    and "frontier_inv st" and "scope_inv lib root d st"
    and "urlparse lib root = Some p" and "netloc p = d"
    and "set us \<subseteq> fset (crawled_urls st)"
  shows "frontier_inv st' \<and> scope_inv lib root d st' \<and> (log_inv st \<longrightarrow> log_inv st') \<and>
         discovered_urls st |\<subseteq>| discovered_urls st'"
  using assms
proof (induction us arbitrary: st)
  case Nil
  then show ?case by simp
next
  case (Cons u us)
  obtain e1 st1 where f: "crawl_url_finish lib net bd st u = (e1, st1)"
    by (cases "crawl_url_finish lib net bd st u")
  from Cons.prems(6) have u: "u |\<in>| crawled_urls st" by simp
  note step = crawl_url_finish_inv [OF f Cons.prems(2,3,4,5) u]
  show ?case
  proof (cases e1)
    case None
    with Cons.prems(1) f have rest: "finish_all lib net bd st1 us = (e, st')" by simp
    from crawled_crawl_url_finish [OF f] Cons.prems(6)
    have sub: "set us \<subseteq> fset (crawled_urls st1)" by simp
    from step have a: "frontier_inv st1" and b: "scope_inv lib root d st1" by simp_all
    from Cons.IH [OF rest a b Cons.prems(4,5) sub] step show ?thesis by auto
  next
    case (Some x)
    with Cons.prems(1) f have "st' = st1" by simp
    with step show ?thesis by simp
  qed
qed

lemma crawl_url_begin_fields:
  "crawl_url_begin st u = (st', f) \<Longrightarrow>
     discovered_urls st' = discovered_urls st \<and> queue st' = queue st \<and>
     results st' = results st \<and>
     crawled_urls st' = (if f then finsert u (crawled_urls st) else crawled_urls st) \<and>
     u |\<in>| crawled_urls st'"
  by (auto simp: crawl_url_begin_def split: if_splits)

lemma start_all_fields:
  "start_all st us = (st', w) \<Longrightarrow>
     discovered_urls st' = discovered_urls st \<and> queue st' = queue st \<and>
     results st' = results st \<and>
     fset (crawled_urls st') = fset (crawled_urls st) \<union> set us \<and> set w \<subseteq> set us"
proof (induction us arbitrary: st st' w)
  case Nil
  then show ?case by simp
next
  case (Cons u us)
  obtain st1 f where b: "crawl_url_begin st u = (st1, f)" by (cases "crawl_url_begin st u")
  obtain st2 w2 where s: "start_all st1 us = (st2, w2)" by (cases "start_all st1 us")
  from Cons.prems b s have eq: "st' = st2" "w = (if f then u # w2 else w2)" by simp_all
  from crawl_url_begin_fields [OF b] Cons.IH [OF s] eq show ?case
    by (auto split: if_splits)
qed

lemma dequeue_loop_queue:
  "dequeue_loop n crawled q tasks = (q', tasks') \<Longrightarrow> set q' \<subseteq> set q"
  by (induction n crawled q tasks rule: dequeue_loop.induct) (auto split: if_splits)

lemma crawl_round_inv:
  assumes r: "crawl_round lib net bd st = (e, st')"
    and fr: "frontier_inv st" and sc: "scope_inv lib root d st"
    and root: "urlparse lib root = Some p" "netloc p = d"
  shows "frontier_inv st' \<and> scope_inv lib root d st' \<and> (log_inv st \<longrightarrow> log_inv st') \<and>
         discovered_urls st |\<subseteq>| discovered_urls st'"
proof -
  obtain q tasks where dq:
    "dequeue_loop (min 5 (length (queue st))) (crawled_urls st) (queue st) [] = (q, tasks)"
    by (cases "dequeue_loop (min 5 (length (queue st))) (crawled_urls st) (queue st) []")
  let ?st0 = "st\<lparr>queue := q\<rparr>"
  from dequeue_loop_queue [OF dq] fr have fr0: "frontier_inv ?st0"
    by (auto simp: frontier_inv_def)
  from sc have sc0: "scope_inv lib root d ?st0" by (simp add: scope_inv_def)
  have lg0: "log_inv st \<longrightarrow> log_inv ?st0" by (simp add: log_inv_def)
  show ?thesis
  proof (cases "tasks = []")
    case True
    with r dq have "st' = ?st0" by (simp add: crawl_round_def)
    with fr0 sc0 lg0 show ?thesis by simp
  next
    case False
    obtain st1 w where sa: "start_all ?st0 tasks = (st1, w)" by (cases "start_all ?st0 tasks")
    from False r dq sa
    have fin: "finish_all lib net bd st1 (sort_key (latency net) w) = (e, st')"
      by (simp add: crawl_round_def gather_def)
    note fields = start_all_fields [OF sa]
    from dequeue_loop_tasks [OF dq] fr have td: "set tasks \<subseteq> fset (discovered_urls st)"
      by (auto simp: frontier_inv_def)
    from fields fr0 td have fr1: "frontier_inv st1"
      by (auto simp: frontier_inv_def)
    from fields sc0 have sc1: "scope_inv lib root d st1" by (simp add: scope_inv_def)
    from fields lg0 have lg1: "log_inv st \<longrightarrow> log_inv st1" by (simp add: log_inv_def)
    from fields have w: "set (sort_key (latency net) w) \<subseteq> fset (crawled_urls st1)" by auto
    from finish_all_inv [OF fin fr1 sc1 root w] lg1 fields show ?thesis by auto
  qed
qed

lemma crawl_loop_inv:
  assumes "crawl_loop lib net bd m st = (e, st')"
    and "frontier_inv st" and "scope_inv lib root d st"
    and "urlparse lib root = Some p" and "netloc p = d"
  shows "frontier_inv st' \<and> scope_inv lib root d st' \<and> (log_inv st \<longrightarrow> log_inv st') \<and>
         discovered_urls st |\<subseteq>| discovered_urls st'"
  using assms
proof (induction lib net bd m st rule: crawl_loop.induct)
  case (1 lib net bd m st)
  show ?case
  proof (cases "queue st \<noteq> [] \<and> int (fcard (crawled_urls st)) < m")
    case False
    with "1.prems"(1) have "st' = st" by (simp add: crawl_loop.simps)
    with "1.prems" show ?thesis by simp
  next
    case True
    obtain e1 st1 where r: "crawl_round lib net bd st = (e1, st1)"
      by (cases "crawl_round lib net bd st")
    note step = crawl_round_inv [OF r "1.prems"(2,3,4,5)]
    show ?thesis
    proof (cases e1)
      case None
      with True r "1.prems"(1) have rest: "crawl_loop lib net bd m st1 = (e, st')"
        by (simp add: crawl_loop.simps)
      from step have a: "frontier_inv st1" and b: "scope_inv lib root d st1" by simp_all
      from "1.IH" [OF True r [symmetric] None rest a b "1.prems"(4,5)] step
      show ?thesis by auto
    next
      case (Some x)
      with True r "1.prems"(1) have "st' = st1" by (simp add: crawl_loop.simps)
      with step show ?thesis by simp
    qed
  qed
qed


lemma initial_state_inv:
  "frontier_inv (initial_state u entry) \<and> scope_inv lib u d (initial_state u entry)"
  by (simp add: initial_state_def frontier_inv_def scope_inv_def)

lemma crawl_site_inv:
  assumes "urlparse lib u = Some p"
  shows "frontier_inv (snd (crawl_site lib net u flag m entry)) \<and>
         scope_inv lib u (netloc p) (snd (crawl_site lib net u flag m entry)) \<and>
         (urls entry = [] \<longrightarrow> log_inv (snd (crawl_site lib net u flag m entry)))"
proof -
  obtain e st where l: "crawl_loop lib net (netloc p) m (initial_state u entry) = (e, st)"
    by (cases "crawl_loop lib net (netloc p) m (initial_state u entry)")
  have i: "frontier_inv (initial_state u entry)" "scope_inv lib u (netloc p) (initial_state u entry)"
    using initial_state_inv [of u entry lib "netloc p"] by simp_all
  have lg: "urls entry = [] \<longrightarrow> log_inv (initial_state u entry)"
    by (simp add: log_inv_def initial_state_def)
  note inv = crawl_loop_inv [OF l i assms refl]
  have "snd (crawl_site lib net u flag m entry) = st \<or>
        snd (crawl_site lib net u flag m entry) = st\<lparr>results := (results st)\<lparr>complete := True\<rparr>\<rparr>"
    using assms l by (cases e) (simp_all add: crawl_site_def)
  then show ?thesis
  proof
    assume "snd (crawl_site lib net u flag m entry) = st"
    with inv lg show ?thesis by simp
  next
    assume "snd (crawl_site lib net u flag m entry) = st\<lparr>results := (results st)\<lparr>complete := True\<rparr>\<rparr>"
    with inv lg show ?thesis by (simp add: frontier_inv_def scope_inv_def log_inv_def)
  qed
qed

section \<open>Scope of the frontier\<close>

text \<open>
  C8: a URL that the classifier rejects for the domain of the root is never put into the
  queue or into \<^verbatim>\<open>discovered_urls\<close>. Whatever the library, the network, the limit and the
  entry are, every member of \<^verbatim>\<open>discovered_urls\<close> when \<^verbatim>\<open>crawl_site\<close> ends (normally or by an
  exception) is the root URL itself or is accepted by \<^verbatim>\<open>is_valid_url\<close> for the authority of
  the root, and the queue holds discovered URLs only. Nothing is ever removed from
  \<^verbatim>\<open>discovered_urls\<close>, so this is so at every moment of the crawl.
\<close>

theorem rejected_never_discovered:
  "(\<forall>v. v |\<in>| discovered_urls (snd (crawl_site lib net u flag m entry)) \<longrightarrow>
        v = u \<or> (\<exists>p. urlparse lib u = Some p \<and> is_valid_url lib v (netloc p))) \<and>
   set (queue (snd (crawl_site lib net u flag m entry))) \<subseteq>
     fset (discovered_urls (snd (crawl_site lib net u flag m entry)))"
proof (cases "urlparse lib u")
  case None
  then show ?thesis by (simp add: crawl_site_def)
next
  case (Some p)
  from crawl_site_inv [OF Some, of net flag m entry] Some show ?thesis
    by (auto simp: frontier_inv_def scope_inv_def)
qed

theorem rejected_never_discovered_witness:
  "''http://a.test/b'' |\<in>| discovered_urls
      (snd (crawl_site site_lib (site_net page_a) ''http://a.test/'' False 10 fresh_entry)) \<and>
   is_valid_url site_lib ''http://a.test/b'' ''a.test'' \<and>
   ''http://other.test/x'' |\<notin>| discovered_urls
      (snd (crawl_site site_lib (site_net page_a) ''http://a.test/'' False 10 fresh_entry)) \<and>
   ''http://a.test/c.png'' |\<notin>| discovered_urls
      (snd (crawl_site site_lib (site_net page_a) ''http://a.test/'' False 10 fresh_entry))"
proof -
  let ?d = "discovered_urls
      (snd (crawl_site site_lib (site_net page_a) ''http://a.test/'' False 10 fresh_entry))"
  have p: "urlparse site_lib ''http://a.test/'' =
      Some \<lparr>scheme = ''http'', netloc = ''a.test'', path = ''/''\<rparr>"
    by (simp add: site_simps)
  have b: "''http://a.test/b'' |\<in>| ?d"
    by (simp add: crawl_simps site_simps)
  have nx: "\<not> is_valid_url site_lib ''http://other.test/x'' ''a.test''"
    by (simp add: is_valid_url_def site_simps SKIP_EXTENSIONS_def endswith_def lower_def lower_char_def)
  have nc: "\<not> is_valid_url site_lib ''http://a.test/c.png'' ''a.test''"
    by (simp add: is_valid_url_def site_simps SKIP_EXTENSIONS_def endswith_def lower_def lower_char_def)
  note inst = rejected_never_discovered
    [of site_lib "site_net page_a" "''http://a.test/''" False 10 fresh_entry]
  from inst b p have vb: "is_valid_url site_lib ''http://a.test/b'' ''a.test''" by auto
  from inst p nx have x: "''http://other.test/x'' |\<notin>| ?d" by auto
  from inst p nc have c: "''http://a.test/c.png'' |\<notin>| ?d" by auto
  from b vb x c show ?thesis by simp
qed

section \<open>A seed that cannot be fetched\<close>

text \<open>
  C5: when the GET of the seed raises (and the limit lets the seed be fetched at all,
  and the seed parses, as the validation of the request demands), \<^verbatim>\<open>crawl_site\<close> ends
  normally with the one record of the seed with status 0, the queue empty, the task
  complete, and the seed the only discovered URL.
\<close>

theorem seed_fetch_fails:
  assumes "urlparse lib seed = Some p" and "respond net seed = Raised" and "0 < m"
  shows "crawl_site lib net seed flag m \<lparr>urls = [], complete = False\<rparr> =
    (None,
     \<lparr>discovered_urls = {|seed|}, crawled_urls = {|seed|}, queue = [],
      results = \<lparr>urls = [\<lparr>r_url = seed, r_status = Some 0, r_new = True\<rparr>],
                 complete = True\<rparr>\<rparr>)"
proof -
  let ?st0 = "initial_state seed \<lparr>urls = [], complete = False\<rparr>"
  let ?st1 = "\<lparr>discovered_urls = {|seed|}, crawled_urls = {|seed|}, queue = [],
      results = \<lparr>urls = [\<lparr>r_url = seed, r_status = Some 0, r_new = True\<rparr>],
                 complete = False\<rparr>\<rparr>"
  have f: "fetch_url (respond net) seed = (None, 0)"
    using assms(2) by (simp add: fetch_url_def)
  have r: "crawl_round lib net (netloc p) ?st0 = (None, ?st1)"
    by (simp add: crawl_round_def initial_state_def gather_def crawl_url_begin_def
        crawl_url_finish_def f append_record_def)
  have l1: "crawl_loop lib net (netloc p) m ?st1 = (None, ?st1)"
    by (simp add: crawl_loop.simps)
  have "crawl_loop lib net (netloc p) m ?st0 = crawl_loop lib net (netloc p) m ?st1"
    using assms(3) r by (subst crawl_loop.simps) (simp add: initial_state_def fcard_fempty)
  with l1 have "crawl_loop lib net (netloc p) m ?st0 = (None, ?st1)" by simp
  with assms(1) show ?thesis by (simp add: crawl_site_def)
qed

theorem seed_fetch_fails_witness:
  "crawl_site site_lib down_net ''http://a.test/'' False 10 \<lparr>urls = [], complete = False\<rparr> =
    (None,
     \<lparr>discovered_urls = {|''http://a.test/''|}, crawled_urls = {|''http://a.test/''|}, queue = [],
      results = \<lparr>urls = [\<lparr>r_url = ''http://a.test/'', r_status = Some 0, r_new = True\<rparr>],
                 complete = True\<rparr>\<rparr>)"
proof -
  have a: "urlparse site_lib ''http://a.test/'' =
     Some \<lparr>scheme = ''http'', netloc = ''a.test'', path = ''/''\<rparr>"
    by (simp add: site_simps)
  have b: "respond down_net ''http://a.test/'' = Raised" by (simp add: down_net_def)
  have c: "(0::int) < 10" by simp
  show ?thesis by (rule seed_fetch_fails [OF a b c])
qed

section \<open>The limit on crawled URLs\<close>

text \<open>
  C1 at a concrete crawl: the root page links to two pages of the site and \<^verbatim>\<open>max_urls\<close>
  is 2. The test before the second round passes with one crawled URL, the round
  dispatches both queued URLs, and \<^verbatim>\<open>crawled_urls\<close> ends with three members.
\<close>

theorem batch_exceeds_max_urls:
  "crawl_site site_lib (site_net page_two) ''http://a.test/'' False 2 fresh_entry =
     (None,
      \<lparr>discovered_urls = {|''http://a.test/c'', ''http://a.test/b'', ''http://a.test/''|},
       crawled_urls = {|''http://a.test/c'', ''http://a.test/b'', ''http://a.test/''|},
       queue = [],
       results = \<lparr>urls =
          [\<lparr>r_url = ''http://a.test/'', r_status = Some 200, r_new = True\<rparr>,
           \<lparr>r_url = ''http://a.test/b'', r_status = None, r_new = True\<rparr>,
           \<lparr>r_url = ''http://a.test/c'', r_status = None, r_new = True\<rparr>,
           \<lparr>r_url = ''http://a.test/b'', r_status = Some 404, r_new = True\<rparr>,
           \<lparr>r_url = ''http://a.test/c'', r_status = Some 404, r_new = True\<rparr>],
          complete = True\<rparr>\<rparr>) \<and>
   fcard (crawled_urls (snd
     (crawl_site site_lib (site_net page_two) ''http://a.test/'' False 2 fresh_entry))) = 3"
  by (simp add: crawl_simps site_simps)

section \<open>The stream of records\<close>

lemma event_generator_idle:
  "event_generator fuel (\<lambda>k. two_phase_log) k {|''http://a.test/b'', ''http://a.test/''|} =
     ([], False)"
  by (induction fuel arbitrary: k) (simp_all add: two_phase_log_def fcard_finsert_if fcard_fempty)

text \<open>
  C2 at a concrete task: the crawl of the scenario leaves three records, two of them for
  \<^verbatim>\<open>http://a.test/b\<close> (pending, then fetched), and is complete. Read from that entry,
  \<^verbatim>\<open>event_generator\<close> yields the first two records only and has not ended after any
  number of passes: \<^verbatim>\<open>sent_urls\<close> has two members and the list three.
\<close>

theorem stream_drops_second_record:
  "results (snd (crawl_site site_lib (site_net page_a) ''http://a.test/'' False 10 fresh_entry)) =
     two_phase_log \<and>
   (\<forall>fuel. event_generator (Suc fuel) (\<lambda>k. two_phase_log) 0 {||} =
     ([\<lparr>r_url = ''http://a.test/'', r_status = Some 200, r_new = True\<rparr>,
       \<lparr>r_url = ''http://a.test/b'', r_status = None, r_new = True\<rparr>], False))"
proof -
  have "results (snd (crawl_site site_lib (site_net page_a) ''http://a.test/'' False 10 fresh_entry)) =
     two_phase_log"
    by (simp add: crawl_simps site_simps two_phase_log_def)
  moreover have "event_generator (Suc fuel) (\<lambda>k. two_phase_log) 0 {||} =
     ([\<lparr>r_url = ''http://a.test/'', r_status = Some 200, r_new = True\<rparr>,
       \<lparr>r_url = ''http://a.test/b'', r_status = None, r_new = True\<rparr>], False)" for fuel
    using event_generator_idle [of fuel "Suc 0"]
    by (simp add: two_phase_log_def fcard_finsert_if fcard_fempty)
  ultimately show ?thesis by simp
qed

section \<open>The domain used by the link filter\<close>

text \<open>
  C4, as the code has it. \<^verbatim>\<open>extract_links\<close> has no access to the root of the crawl: it
  filters the resolved links with \<^verbatim>\<open>is_valid_url\<close> for the authority of the URL it is
  given, which \<^verbatim>\<open>crawl_url\<close> makes the URL of the page. In a crawl that changes nothing:
  every URL that is ever discovered, and so every page that is fetched, parses with the
  authority of the root, so the links accepted from a page of the crawl are those the
  classifier accepts for the root domain.
\<close>

theorem extract_links_uses_page_domain:
  "(extract_links lib html base = Inr links \<and> html \<noteq> [] \<longrightarrow>
      (\<exists>q joined. urlparse lib base = Some q \<and>
         map (urljoin lib base) (anchor_hrefs lib html) = map Some joined \<and>
         links = filter (\<lambda>v. is_valid_url lib v (netloc q)) joined)) \<and>
   (urlparse lib u = Some p \<longrightarrow>
      (\<forall>v. v |\<in>| discovered_urls (snd (crawl_site lib net u flag m entry)) \<longrightarrow>
           (\<exists>q. urlparse lib v = Some q \<and> netloc q = netloc p)))"
proof -
  have a: "\<exists>q joined. urlparse lib base = Some q \<and>
         map (urljoin lib base) (anchor_hrefs lib html) = map Some joined \<and>
         links = filter (\<lambda>v. is_valid_url lib v (netloc q)) joined"
    if ex: "extract_links lib html base = Inr links" and ne: "html \<noteq> []"
  proof -
    from ex ne obtain q where q: "urlparse lib base = Some q"
      by (cases "urlparse lib base") (auto simp: extract_links_def)
    with ex ne have "extract_loop lib base (netloc q) (anchor_hrefs lib html) [] = Inr links"
      by (simp add: extract_links_def)
    from extract_loop_joined [OF this] q show ?thesis by auto
  qed
  have b: "\<exists>q. urlparse lib v = Some q \<and> netloc q = netloc p"
    if p: "urlparse lib u = Some p"
      and v: "v |\<in>| discovered_urls (snd (crawl_site lib net u flag m entry))" for v
  proof -
    from crawl_site_inv [OF p, of net flag m entry]
    have "scope_inv lib u (netloc p) (snd (crawl_site lib net u flag m entry))" by simp
    from scope_inv_netloc [OF this p refl v] show ?thesis .
  qed
  from a b show ?thesis by blast
qed

theorem extract_links_uses_page_domain_witness:
  "extract_links site_lib page_a ''http://a.test/'' = Inr [''http://a.test/b''] \<and>
   page_a \<noteq> [] \<and>
   (\<exists>q joined. urlparse site_lib ''http://a.test/'' = Some q \<and>
      map (urljoin site_lib ''http://a.test/'') (anchor_hrefs site_lib page_a) = map Some joined \<and>
      [''http://a.test/b''] = filter (\<lambda>v. is_valid_url site_lib v (netloc q)) joined) \<and>
   ''http://a.test/b'' |\<in>| discovered_urls
      (snd (crawl_site site_lib (site_net page_a) ''http://a.test/'' False 10 fresh_entry)) \<and>
   (\<exists>q. urlparse site_lib ''http://a.test/b'' = Some q \<and> netloc q = ''a.test'')"
proof -
  have e: "extract_links site_lib page_a ''http://a.test/'' = Inr [''http://a.test/b'']"
    by (simp add: extract_links_def is_valid_url_def SKIP_EXTENSIONS_def endswith_def lower_def
        lower_char_def site_simps)
  have n: "page_a \<noteq> []" by (simp add: page_a_def)
  have p: "urlparse site_lib ''http://a.test/'' =
      Some \<lparr>scheme = ''http'', netloc = ''a.test'', path = ''/''\<rparr>"
    by (simp add: site_simps)
  have b: "''http://a.test/b'' |\<in>| discovered_urls
      (snd (crawl_site site_lib (site_net page_a) ''http://a.test/'' False 10 fresh_entry))"
    by (simp add: crawl_simps site_simps)
  note inst = extract_links_uses_page_domain
    [of site_lib page_a "''http://a.test/''" "[''http://a.test/b'']" "''http://a.test/''"
        "\<lparr>scheme = ''http'', netloc = ''a.test'', path = ''/''\<rparr>" "site_net page_a" False 10
        fresh_entry]
  from inst e n have 1: "\<exists>q joined. urlparse site_lib ''http://a.test/'' = Some q \<and>
      map (urljoin site_lib ''http://a.test/'') (anchor_hrefs site_lib page_a) = map Some joined \<and>
      [''http://a.test/b''] = filter (\<lambda>v. is_valid_url site_lib v (netloc q)) joined"
    by blast
  from inst p b have 2: "\<exists>q. urlparse site_lib ''http://a.test/b'' = Some q \<and> netloc q = ''a.test''"
    by auto
  from e n 1 b 2 show ?thesis by blast
qed

text \<open>
  The claim C4 as stated, for a page URL whose authority differs from the root domain:
  with the root \<^verbatim>\<open>http://a.test/\<close> and the page URL \<^verbatim>\<open>http://other.test/\<close>, the links
  accepted from the page of the scenario are the one of \<^verbatim>\<open>other.test\<close>, which the
  classifier rejects for the root domain, and not the one of \<^verbatim>\<open>a.test\<close>.
\<close>

theorem extract_links_root_domain_counterexample:
  "urlparse site_lib ''http://a.test/'' =
     Some \<lparr>scheme = ''http'', netloc = ''a.test'', path = ''/''\<rparr> \<and>
   urlparse site_lib ''http://other.test/'' =
     Some \<lparr>scheme = ''http'', netloc = ''other.test'', path = ''/''\<rparr> \<and>
   extract_links site_lib page_a ''http://other.test/'' = Inr [''http://other.test/x''] \<and>
   \<not> is_valid_url site_lib ''http://other.test/x'' ''a.test'' \<and>
   is_valid_url site_lib ''http://a.test/b'' ''a.test''"
  by (simp add: extract_links_def is_valid_url_def SKIP_EXTENSIONS_def endswith_def lower_def
      lower_char_def site_simps)

section \<open>Insertion into the frontier\<close>

text \<open>
  C3, as the code has it. A link is put into the frontier by the body of the loop over
  the extracted links: when the link is neither discovered nor crawled it is added to
  \<^verbatim>\<open>discovered_urls\<close>, appended to the queue and a pending record (status \<^verbatim>\<open>None\<close>) is
  appended to the records; when it is discovered already nothing changes. Doing it a
  second time changes nothing, and in a state that satisfies the invariants of the crawl
  a link that was not discovered is afterwards once in the queue and has one pending
  record. The root URL is put into the queue and into \<^verbatim>\<open>discovered_urls\<close> when the task
  starts, and no record is appended for it then.
\<close>

theorem crawl_url_link_once:
  "(link |\<notin>| discovered_urls st \<and> link |\<notin>| crawled_urls st \<longrightarrow>
      crawl_url_link st link =
        st\<lparr>discovered_urls := finsert link (discovered_urls st),
           queue := queue st @ [link],
           results := (results st)\<lparr>urls := urls (results st) @
              [\<lparr>r_url = link, r_status = None, r_new = True\<rparr>]\<rparr>\<rparr>) \<and>
   (link |\<in>| discovered_urls st \<longrightarrow> crawl_url_link st link = st) \<and>
   crawl_url_link (crawl_url_link st link) link = crawl_url_link st link \<and>
   (frontier_inv st \<and> log_inv st \<and> link |\<notin>| discovered_urls st \<longrightarrow>
      count_list (queue (crawl_url_link (crawl_url_link st link) link)) link = 1 \<and>
      length (filter (\<lambda>r. r_url r = link \<and> r_status r = None)
        (urls (results (crawl_url_link (crawl_url_link st link) link)))) = 1) \<and>
   initial_state u entry =
     \<lparr>discovered_urls = {|u|}, crawled_urls = {||}, queue = [u], results = entry\<rparr>"
proof -
  have idem: "crawl_url_link (crawl_url_link st link) link = crawl_url_link st link"
    by (simp add: crawl_url_link_def append_record_def)
  have one: "count_list (queue (crawl_url_link st link)) link = 1 \<and>
      length (filter (\<lambda>r. r_url r = link \<and> r_status r = None)
        (urls (results (crawl_url_link st link)))) = 1"
    if fr: "frontier_inv st" and lg: "log_inv st" and nd: "link |\<notin>| discovered_urls st"
  proof -
    from fr nd have nc: "link |\<notin>| crawled_urls st" and nq: "link \<notin> set (queue st)"
      by (auto simp: frontier_inv_def)
    from lg nd have "\<forall>r \<in> set (urls (results st)). r_url r \<noteq> link"
      by (auto simp: log_inv_def)
    then have nl: "filter (\<lambda>r. r_url r = link \<and> r_status r = None) (urls (results st)) = []"
      by (simp add: filter_empty_conv)
    from nd nc nq nl show ?thesis
      by (simp add: crawl_url_link_def append_record_def count_list_0_iff)
  qed
  show ?thesis
    using idem one by (auto simp: crawl_url_link_def append_record_def initial_state_def)
qed

theorem crawl_url_link_once_witness:
  "frontier_inv (initial_state ''http://a.test/'' fresh_entry) \<and>
   log_inv (initial_state ''http://a.test/'' fresh_entry) \<and>
   ''http://a.test/b'' |\<notin>| discovered_urls (initial_state ''http://a.test/'' fresh_entry) \<and>
   ''http://a.test/b'' |\<notin>| crawled_urls (initial_state ''http://a.test/'' fresh_entry) \<and>
   crawl_url_link (initial_state ''http://a.test/'' fresh_entry) ''http://a.test/b'' =
     \<lparr>discovered_urls = {|''http://a.test/b'', ''http://a.test/''|}, crawled_urls = {||},
      queue = [''http://a.test/'', ''http://a.test/b''],
      results = \<lparr>urls = [\<lparr>r_url = ''http://a.test/b'', r_status = None, r_new = True\<rparr>],
                 complete = False\<rparr>\<rparr> \<and>
   count_list (queue (crawl_url_link
      (crawl_url_link (initial_state ''http://a.test/'' fresh_entry) ''http://a.test/b'')
      ''http://a.test/b'')) ''http://a.test/b'' = 1 \<and>
   length (filter (\<lambda>r. r_url r = ''http://a.test/b'' \<and> r_status r = None)
     (urls (results (crawl_url_link
        (crawl_url_link (initial_state ''http://a.test/'' fresh_entry) ''http://a.test/b'')
        ''http://a.test/b'')))) = 1"
proof -
  let ?S = "initial_state ''http://a.test/'' fresh_entry"
  have h: "frontier_inv ?S" "log_inv ?S" "''http://a.test/b'' |\<notin>| discovered_urls ?S"
    "''http://a.test/b'' |\<notin>| crawled_urls ?S"
    by (simp_all add: initial_state_def frontier_inv_def log_inv_def fresh_entry_def)
  note inst = crawl_url_link_once [of "''http://a.test/b''" ?S "''http://a.test/''" fresh_entry]
  from inst h(3,4) have "crawl_url_link ?S ''http://a.test/b'' =
        ?S\<lparr>discovered_urls := finsert ''http://a.test/b'' (discovered_urls ?S),
           queue := queue ?S @ [''http://a.test/b''],
           results := (results ?S)\<lparr>urls := urls (results ?S) @
              [\<lparr>r_url = ''http://a.test/b'', r_status = None, r_new = True\<rparr>]\<rparr>\<rparr>"
    by blast
  then have 1: "crawl_url_link ?S ''http://a.test/b'' =
     \<lparr>discovered_urls = {|''http://a.test/b'', ''http://a.test/''|}, crawled_urls = {||},
      queue = [''http://a.test/'', ''http://a.test/b''],
      results = \<lparr>urls = [\<lparr>r_url = ''http://a.test/b'', r_status = None, r_new = True\<rparr>],
                 complete = False\<rparr>\<rparr>"
    by (simp add: initial_state_def fresh_entry_def)
  from inst h(1,2,3) have 2: "count_list (queue (crawl_url_link
      (crawl_url_link ?S ''http://a.test/b'') ''http://a.test/b'')) ''http://a.test/b'' = 1 \<and>
   length (filter (\<lambda>r. r_url r = ''http://a.test/b'' \<and> r_status r = None)
     (urls (results (crawl_url_link
        (crawl_url_link ?S ''http://a.test/b'') ''http://a.test/b'')))) = 1"
    by blast
  from h 1 2 show ?thesis by blast
qed

text \<open>
  The claim C3 for the root URL: in the crawl of the scenario the root is discovered
  and the records, from which nothing is ever removed, hold no pending record for it.
\<close>

theorem root_has_no_pending_record_counterexample:
  "''http://a.test/'' |\<in>| discovered_urls
      (snd (crawl_site site_lib (site_net page_a) ''http://a.test/'' False 10 fresh_entry)) \<and>
   \<not> (\<exists>r \<in> set (urls (results
      (snd (crawl_site site_lib (site_net page_a) ''http://a.test/'' False 10 fresh_entry)))).
        r_url r = ''http://a.test/'' \<and> r_status r = None)"
  by (simp add: crawl_simps site_simps)


end
